theory Spec2Isabelle
  imports Complex_Main "HOL-Library.Char_ord" "HOL-Library.List_Lexorder"
    "HOL-Library.Product_Lexorder"
begin

section \<open>Numbers that may be infinite\<close>

text \<open>
  Python mixes \<^verbatim>\<open>int\<close> and \<^verbatim>\<open>float('inf')\<close> in a cost, and a heuristic value is a
  float that may be \<^verbatim>\<open>float('inf')\<close>. Both are a number or positive infinity; infinity is
  above every number. Float arithmetic is taken as exact arithmetic on the reals.
\<close>

datatype 'a ext = Finite 'a | Infinity

instantiation ext :: (linorder) linorder
begin

fun less_eq_ext :: "'a ext \<Rightarrow> 'a ext \<Rightarrow> bool" where
  "less_eq_ext (Finite a) (Finite b) = (a \<le> b)"
| "less_eq_ext Infinity (Finite b) = False"
| "less_eq_ext x Infinity = True"

definition less_ext :: "'a ext \<Rightarrow> 'a ext \<Rightarrow> bool" where
  "less_ext x y = (x \<le> y \<and> \<not> y \<le> x)"

instance
proof
  fix x y z :: "'a ext"
  show "(x < y) = (x \<le> y \<and> \<not> y \<le> x)"
    by (simp add: less_ext_def)
  show "x \<le> x"
    by (cases x) simp_all
  show "x \<le> y \<Longrightarrow> y \<le> z \<Longrightarrow> x \<le> z"
    by (cases x; cases y; cases z) simp_all
  show "x \<le> y \<Longrightarrow> y \<le> x \<Longrightarrow> x = y"
    by (cases x; cases y) simp_all
  show "x \<le> y \<or> y \<le> x"
    by (cases x; cases y) auto
qed

end

text \<open>\<^verbatim>\<open>new_g_cost + h_cost\<close>: an int plus a float; infinity absorbs.\<close>

fun add_int_float :: "int \<Rightarrow> real ext \<Rightarrow> real ext" where
  "add_int_float n (Finite r) = Finite (real_of_int n + r)"
| "add_int_float n Infinity = Infinity"

section \<open>The campus graph (campus\_graph.py)\<close>

text \<open>
  A Python dict keeps insertion order, and the searches iterate over \<^verbatim>\<open>.items()\<close>, so
  every dict whose order matters is an association list. \<^verbatim>\<open>self.nodes\<close> is only asked
  for membership; it is kept as the list of its keys.
\<close>

record graph =
  nodes :: "string list"
  edges :: "(string \<times> (string \<times> int) list) list"
  coordinates :: "(string \<times> (int \<times> int)) list"

definition get_neighbors :: "graph \<Rightarrow> string \<Rightarrow> (string \<times> int) list" where
  "get_neighbors g node = (case map_of (edges g) node of None \<Rightarrow> [] | Some d \<Rightarrow> d)"

definition get_distance :: "graph \<Rightarrow> string \<Rightarrow> string \<Rightarrow> int option" where
  "get_distance g node1 node2 = map_of (get_neighbors g node1) node2"

definition scale_x :: real where
  "scale_x = 1000 / 824"

definition scale_y :: real where
  "scale_y = 2000 / 1741"

definition euclidean_distance :: "graph \<Rightarrow> string \<Rightarrow> string \<Rightarrow> real ext" where
  "euclidean_distance g node1 node2 =
     (case (map_of (coordinates g) node1, map_of (coordinates g) node2) of
        (Some (x1, y1), Some (x2, y2)) \<Rightarrow>
          (let dx = real_of_int (x2 - x1) * scale_x;
               dy = real_of_int (y2 - y1) * scale_y
           in Finite (sqrt (dx * dx + dy * dy)))
      | _ \<Rightarrow> Infinity)"

definition is_valid_node :: "graph \<Rightarrow> string \<Rightarrow> bool" where
  "is_valid_node g node = (node \<in> set (nodes g))"

text \<open>
  The loop of \<^verbatim>\<open>get_path_distance\<close> over \<^verbatim>\<open>i in range(len(path) - 1)\<close>, with its
  early \<^verbatim>\<open>return float('inf')\<close> at a pair that has no edge.
\<close>

fun path_distance_loop :: "graph \<Rightarrow> string list \<Rightarrow> int \<Rightarrow> int ext" where
  "path_distance_loop g (a # b # rest) total_distance =
     (case get_distance g a b of
        None \<Rightarrow> Infinity
      | Some distance \<Rightarrow> path_distance_loop g (b # rest) (total_distance + distance))"
| "path_distance_loop g rest total_distance = Finite total_distance"

definition get_path_distance :: "graph \<Rightarrow> string list \<Rightarrow> int ext" where
  "get_path_distance g path =
     (if length path < 2 then Finite 0 else path_distance_loop g path 0)"

section \<open>The priority queue (heapq)\<close>

text \<open>
  \<^verbatim>\<open>heapq\<close> is Python's library; it is modelled by its contract. \<^verbatim>\<open>heappush\<close> adds an
  item, \<^verbatim>\<open>heappop\<close> removes and returns the smallest item. The items are tuples, which
  Python compares lexicographically, component by component: numbers by value, strings by
  code point, lists element by element. That order is total, and two items that compare
  equal are the same value, so the sequence of popped values is determined by the contract.
  The heap is kept as the list of its items in insertion order.
\<close>

definition heappush :: "'a list \<Rightarrow> 'a \<Rightarrow> 'a list" where
  "heappush heap item = heap @ [item]"

fun smallest :: "'a::linorder list \<Rightarrow> 'a" where
  "smallest [] = undefined"
| "smallest (x # xs) = fold min xs x"

definition heappop :: "'a::linorder list \<Rightarrow> 'a \<times> 'a list" where
  "heappop heap = (let m = smallest heap in (m, remove1 m heap))"

section \<open>The search strategies (search\_algorithms.py)\<close>

record SearchResult =
  path :: "string list"
  cost :: "int ext"
  nodes_explored :: "string list"
  exploration_order :: "string list"
  algorithm :: string
  success :: bool

definition num_nodes_explored :: "SearchResult \<Rightarrow> nat" where
  "num_nodes_explored r = card (set (nodes_explored r))"

text \<open>
  The object of class \<^verbatim>\<open>SearchAlgorithms\<close>: the graph and the flag that switches the
  printed trace on. Printing is the only effect of a search and nothing reads it back, so
  it is left out of the model.
\<close>

record SearchAlgorithms =
  graph :: graph
  trace_enabled :: bool

definition failed :: "string \<Rightarrow> string list \<Rightarrow> string list \<Rightarrow> SearchResult" where
  "failed name ne eo =
     \<lparr>path = [], cost = Finite 0, nodes_explored = ne, exploration_order = eo,
      algorithm = name, success = False\<rparr>"

definition found ::
  "string \<Rightarrow> string list \<Rightarrow> int ext \<Rightarrow> string list \<Rightarrow> string list \<Rightarrow> SearchResult" where
  "found name p c ne eo =
     \<lparr>path = p, cost = c, nodes_explored = ne, exploration_order = eo,
      algorithm = name, success = True\<rparr>"

definition edge_keys :: "graph \<Rightarrow> string set" where
  "edge_keys g = set (map fst (edges g))"

lemma get_neighbors_outside: "node \<notin> edge_keys g \<Longrightarrow> get_neighbors g node = []"
  by (simp add: get_neighbors_def edge_keys_def map_of_eq_None_iff [THEN iffD2])

lemma finite_unvisited: "finite (edge_keys g - visited)"
  by (simp add: edge_keys_def)

lemma card_unvisited_less:
  assumes "node \<in> edge_keys g" "node \<notin> visited"
  shows "card (edge_keys g - insert node visited) < card (edge_keys g - visited)"
proof (rule psubset_card_mono)
  show "finite (edge_keys g - visited)"
    by (rule finite_unvisited)
  show "edge_keys g - insert node visited \<subset> edge_keys g - visited"
    using assms by auto
qed

lemma card_unvisited_same:
  "node \<notin> edge_keys g \<Longrightarrow> card (edge_keys g - insert node visited) = card (edge_keys g - visited)"
  by (rule arg_cong [where f = card]) auto

lemma visit_measure:
  assumes "node \<notin> visited"
  shows "card (edge_keys g - insert node visited) < card (edge_keys g - visited) \<or>
         card (edge_keys g - insert node visited) = card (edge_keys g - visited) \<and>
         get_neighbors g node = []"
  using assms card_unvisited_less [of node g visited] card_unvisited_same [of node g visited]
    get_neighbors_outside [of node g]
  by blast

subsection \<open>Breadth-first search\<close>

text \<open>
  The \<^verbatim>\<open>while queue\<close> loop. The inner \<^verbatim>\<open>for\<close> loop appends one entry for every
  neighbour not in \<^verbatim>\<open>visited\<close>, which does not change while it runs.
\<close>

function bfs_loop ::
  "graph \<Rightarrow> string \<Rightarrow> (string \<times> string list \<times> int) list \<Rightarrow> string set \<Rightarrow>
   string list \<Rightarrow> string list \<Rightarrow> SearchResult" where
  "bfs_loop g goal [] visited eo ne = failed ''BFS'' ne eo"
| "bfs_loop g goal ((current_node, p, c) # queue) visited eo ne =
     (if current_node \<in> visited then bfs_loop g goal queue visited eo ne
      else if current_node = goal
        then found ''BFS'' p (get_path_distance g p) (ne @ [current_node]) (eo @ [current_node])
      else bfs_loop g goal
             (queue @ map (\<lambda>(neighbor, edge_cost). (neighbor, p @ [neighbor], c + edge_cost))
                (filter (\<lambda>(neighbor, edge_cost). neighbor \<notin> insert current_node visited)
                   (get_neighbors g current_node)))
             (insert current_node visited) (eo @ [current_node]) (ne @ [current_node]))"
  by pat_completeness auto
termination
proof (relation "measures [\<lambda>(g, goal, queue, visited, eo, ne). card (edge_keys g - visited),
                           \<lambda>(g, goal, queue, visited, eo, ne). length queue]", goal_cases)
  case 1
  show ?case by simp
next
  case 2
  show ?case by simp
next
  case (3 g goal current_node p c queue visited eo ne)
  then show ?case
    using visit_measure [of current_node visited g]
    by (auto simp del: card_Diff_insert)
qed

definition breadth_first_search :: "SearchAlgorithms \<Rightarrow> string \<Rightarrow> string \<Rightarrow> SearchResult" where
  "breadth_first_search self start goal =
     (if \<not> is_valid_node (graph self) start \<or> \<not> is_valid_node (graph self) goal
        then failed ''BFS'' [] []
      else if start = goal then found ''BFS'' [start] (Finite 0) [start] [start]
      else bfs_loop (graph self) goal [(start, [start], 0)] {} [] [])"

subsection \<open>Depth-first search\<close>

text \<open>
  The stack is a Python list: \<^verbatim>\<open>pop()\<close> takes the last element and \<^verbatim>\<open>append\<close> adds
  at the end, so the top of the stack is the last element of the list.
\<close>

function dfs_loop ::
  "graph \<Rightarrow> string \<Rightarrow> (string \<times> string list \<times> int) list \<Rightarrow> string set \<Rightarrow>
   string list \<Rightarrow> string list \<Rightarrow> SearchResult" where
  "dfs_loop g goal stack visited eo ne =
     (if stack = [] then failed ''DFS'' ne eo
      else case last stack of (current_node, p, c) \<Rightarrow>
        (if current_node \<in> visited then dfs_loop g goal (butlast stack) visited eo ne
         else if current_node = goal
           then found ''DFS'' p (get_path_distance g p) (ne @ [current_node]) (eo @ [current_node])
         else dfs_loop g goal
                (butlast stack @
                 map (\<lambda>(neighbor, edge_cost). (neighbor, p @ [neighbor], c + edge_cost))
                   (filter (\<lambda>(neighbor, edge_cost). neighbor \<notin> insert current_node visited)
                      (rev (get_neighbors g current_node))))
                (insert current_node visited) (eo @ [current_node]) (ne @ [current_node])))"
  by pat_completeness auto
termination
proof (relation "measures [\<lambda>(g, goal, stack, visited, eo, ne). card (edge_keys g - visited),
                           \<lambda>(g, goal, stack, visited, eo, ne). length stack]", goal_cases)
  case 1
  show ?case by simp
next
  case 2
  then show ?case by simp
next
  case (3 g goal stack visited eo ne current_node y p c)
  then show ?case
    using visit_measure [of current_node visited g]
    by (auto simp del: card_Diff_insert)
qed

definition depth_first_search :: "SearchAlgorithms \<Rightarrow> string \<Rightarrow> string \<Rightarrow> SearchResult" where
  "depth_first_search self start goal =
     (if \<not> is_valid_node (graph self) start \<or> \<not> is_valid_node (graph self) goal
        then failed ''DFS'' [] []
      else if start = goal then found ''DFS'' [start] (Finite 0) [start] [start]
      else dfs_loop (graph self) goal [(start, [start], 0)] {} [] [])"

subsection \<open>Uniform-cost search\<close>

lemma smallest_in: "heap \<noteq> [] \<Longrightarrow> smallest heap \<in> set heap"
proof (cases heap)
  case Nil
  assume "heap \<noteq> []"
  with Nil show ?thesis by simp
next
  case (Cons x xs)
  have "fold min xs x \<in> set (x # xs)"
    by (induction xs arbitrary: x) (auto simp: min_def)
  with Cons show ?thesis by simp
qed

lemma length_heappop:
  assumes "heap \<noteq> []" "(item, rest) = heappop heap"
  shows "length rest < length heap"
proof -
  have "rest = remove1 (smallest heap) heap"
    using assms(2) by (simp add: heappop_def Let_def)
  moreover have "0 < length heap"
    using assms(1) by simp
  ultimately show ?thesis
    using smallest_in [OF assms(1)] by (simp add: length_remove1)
qed

function ucs_loop ::
  "graph \<Rightarrow> string \<Rightarrow> (int \<times> string \<times> string list) list \<Rightarrow> string set \<Rightarrow>
   string list \<Rightarrow> string list \<Rightarrow> SearchResult" where
  "ucs_loop g goal priority_queue visited eo ne =
     (if priority_queue = [] then failed ''UCS'' ne eo
      else case heappop priority_queue of ((current_cost, current_node, p), rest) \<Rightarrow>
        (if current_node \<in> visited then ucs_loop g goal rest visited eo ne
         else if current_node = goal
           then found ''UCS'' p (Finite current_cost) (ne @ [current_node]) (eo @ [current_node])
         else ucs_loop g goal
                (foldl heappush rest
                   (map (\<lambda>(neighbor, edge_cost).
                           (current_cost + edge_cost, neighbor, p @ [neighbor]))
                      (filter (\<lambda>(neighbor, edge_cost). neighbor \<notin> insert current_node visited)
                         (get_neighbors g current_node))))
                (insert current_node visited) (eo @ [current_node]) (ne @ [current_node])))"
  by pat_completeness auto
termination
proof (relation "measures [\<lambda>(g, goal, pq, visited, eo, ne). card (edge_keys g - visited),
                           \<lambda>(g, goal, pq, visited, eo, ne). length pq]", goal_cases)
  case 1
  show ?case by simp
next
  case (2 g goal pq visited eo ne x rest current_cost y current_node p)
  then show ?case
    using length_heappop [of pq x rest] by simp
next
  case (3 g goal pq visited eo ne x rest current_cost y current_node p)
  then show ?case
    using visit_measure [of current_node visited g] length_heappop [of pq x rest]
    by (auto simp del: card_Diff_insert)
qed

definition uniform_cost_search :: "SearchAlgorithms \<Rightarrow> string \<Rightarrow> string \<Rightarrow> SearchResult" where
  "uniform_cost_search self start goal =
     (if \<not> is_valid_node (graph self) start \<or> \<not> is_valid_node (graph self) goal
        then failed ''UCS'' [] []
      else if start = goal then found ''UCS'' [start] (Finite 0) [start] [start]
      else ucs_loop (graph self) goal [(0, start, [start])] {} [] [])"

subsection \<open>A* search\<close>

text \<open>
  One pass of the inner \<^verbatim>\<open>for\<close> loop of A*: it changes the heap and \<^verbatim>\<open>g_costs\<close>, and a
  later neighbour sees the \<^verbatim>\<open>g_costs\<close> left by an earlier one.
\<close>

definition relax ::
  "graph \<Rightarrow> string \<Rightarrow> string set \<Rightarrow> int \<Rightarrow> string list \<Rightarrow> string \<times> int \<Rightarrow>
   (real ext \<times> int \<times> string \<times> string list) list \<times> (string \<rightharpoonup> int) \<Rightarrow>
   (real ext \<times> int \<times> string \<times> string list) list \<times> (string \<rightharpoonup> int)" where
  "relax g goal visited g_cost p edge state =
     (case edge of (neighbor, edge_cost) \<Rightarrow>
      case state of (priority_queue, g_costs) \<Rightarrow>
        if neighbor \<notin> visited then
          (let new_g_cost = g_cost + edge_cost in
           if (case g_costs neighbor of None \<Rightarrow> False | Some known \<Rightarrow> known \<le> new_g_cost)
             then (priority_queue, g_costs)
           else
             (heappush priority_queue
                (add_int_float new_g_cost (euclidean_distance g neighbor goal),
                 new_g_cost, neighbor, p @ [neighbor]),
              g_costs(neighbor \<mapsto> new_g_cost)))
        else (priority_queue, g_costs))"

lemma length_relax: "length pq \<le> length (fst (fold (relax g goal visited gc p) es (pq, gs)))"
proof (induction es arbitrary: pq gs)
  case Nil
  show ?case by simp
next
  case (Cons e es)
  obtain pq' gs' where step: "relax g goal visited gc p e (pq, gs) = (pq', gs')"
    by (cases "relax g goal visited gc p e (pq, gs)")
  then have "length pq \<le> length pq'"
    by (auto simp: relax_def heappush_def Let_def split: prod.splits if_splits)
  with Cons [of pq' gs'] step show ?case by simp
qed

function a_star_loop ::
  "graph \<Rightarrow> string \<Rightarrow> (real ext \<times> int \<times> string \<times> string list) list \<Rightarrow> string set \<Rightarrow>
   string list \<Rightarrow> string list \<Rightarrow> (string \<rightharpoonup> int) \<Rightarrow> SearchResult" where
  "a_star_loop g goal priority_queue visited eo ne g_costs =
     (if priority_queue = [] then failed ''A*'' ne eo
      else case heappop priority_queue of ((f_cost, g_cost, current_node, p), rest) \<Rightarrow>
        (if current_node \<in> visited then a_star_loop g goal rest visited eo ne g_costs
         else if current_node = goal
           then found ''A*'' p (Finite g_cost) (ne @ [current_node]) (eo @ [current_node])
         else case fold (relax g goal (insert current_node visited) g_cost p)
                     (get_neighbors g current_node) (rest, g_costs) of
                (priority_queue', g_costs') \<Rightarrow>
                  a_star_loop g goal priority_queue' (insert current_node visited)
                    (eo @ [current_node]) (ne @ [current_node]) g_costs'))"
  by pat_completeness auto
termination
proof (relation "measures [\<lambda>(g, goal, pq, visited, eo, ne, gs). card (edge_keys g - visited),
                           \<lambda>(g, goal, pq, visited, eo, ne, gs). length pq]", goal_cases)
  case 1
  show ?case by simp
next
  case (2 g goal pq visited eo ne gs x rest f_cost y g_cost z current_node p)
  then show ?case
    using length_heappop [of pq x rest] by simp
next
  case (3 g goal pq visited eo ne gs x rest f_cost y g_cost z current_node p pq' gs')
  then show ?case
    using visit_measure [of current_node visited g] length_heappop [of pq x rest]
      length_relax [of rest g goal "insert current_node visited" g_cost p
        "get_neighbors g current_node" gs]
    by (auto simp del: card_Diff_insert)
qed

definition a_star_search :: "SearchAlgorithms \<Rightarrow> string \<Rightarrow> string \<Rightarrow> SearchResult" where
  "a_star_search self start goal =
     (if \<not> is_valid_node (graph self) start \<or> \<not> is_valid_node (graph self) goal
        then failed ''A*'' [] []
      else if start = goal then found ''A*'' [start] (Finite 0) [start] [start]
      else a_star_loop (graph self) goal
             [(euclidean_distance (graph self) start goal, 0, start, [start])] {} [] []
             (Map.empty(start \<mapsto> 0)))"

subsection \<open>Running all four\<close>

text \<open>
  The list \<^verbatim>\<open>algorithms\<close> of \<^verbatim>\<open>compare_algorithms\<close>, which runs each strategy on the
  same pair and collects the results under the strategy's name. It switches the trace
  flag off and back on, which leaves the object as it was.
\<close>

definition algorithms ::
  "(string \<times> (SearchAlgorithms \<Rightarrow> string \<Rightarrow> string \<Rightarrow> SearchResult)) list" where
  "algorithms =
     [(''BFS'', breadth_first_search), (''DFS'', depth_first_search),
      (''UCS'', uniform_cost_search), (''A*'', a_star_search)]"

definition compare_algorithms ::
  "SearchAlgorithms \<Rightarrow> string \<Rightarrow> string \<Rightarrow> (string \<times> SearchResult) list" where
  "compare_algorithms self start goal =
     map (\<lambda>(name, algorithm). (name, algorithm (self\<lparr>trace_enabled := False\<rparr>) start goal))
       algorithms"

section \<open>Example graphs\<close>

text \<open>
  The graph of the literal scenario: nodes A, B, C, D with the connections (A,B,10),
  (B,C,10), (A,C,5), (C,D,5), and an isolated node E. The adjacency dicts are in the order
  in which \<^verbatim>\<open>_add_campus_connections\<close> fills them from that list.
\<close>

definition scenario_graph :: graph where
  "scenario_graph =
     \<lparr>nodes = [''A'', ''B'', ''C'', ''D'', ''E''],
      edges = [(''A'', [(''B'', 10), (''C'', 5)]),
               (''B'', [(''A'', 10), (''C'', 10)]),
               (''C'', [(''B'', 10), (''A'', 5), (''D'', 5)]),
               (''D'', [(''C'', 5)]),
               (''E'', [])],
      coordinates = [(''A'', (0, 0)), (''B'', (0, 8)), (''C'', (4, 0)), (''D'', (8, 0)),
                     (''E'', (20, 20))]\<rparr>"

definition scenario :: SearchAlgorithms where
  "scenario = \<lparr>graph = scenario_graph, trace_enabled = True\<rparr>"

section \<open>Paths, their cost, and reachability\<close>

text \<open>
  A path is a list of node names in which every consecutive pair is joined by an edge; its
  cost under a step function is the sum over those pairs. With the step function
  \<open>edge_weight\<close> this is what \<^verbatim>\<open>get_path_distance\<close> adds up.
\<close>

fun valid_path :: "graph \<Rightarrow> string list \<Rightarrow> bool" where
  "valid_path g (a # b # rest) = (get_distance g a b \<noteq> None \<and> valid_path g (b # rest))"
| "valid_path g rest = True"

definition edge_weight :: "graph \<Rightarrow> string \<Rightarrow> string \<Rightarrow> int" where
  "edge_weight g a b = (case get_distance g a b of None \<Rightarrow> 0 | Some d \<Rightarrow> d)"

fun walk_cost :: "(string \<Rightarrow> string \<Rightarrow> int) \<Rightarrow> string list \<Rightarrow> int" where
  "walk_cost st (a # b # rest) = st a b + walk_cost st (b # rest)"
| "walk_cost st rest = 0"

definition from_start :: "graph \<Rightarrow> string \<Rightarrow> string list \<Rightarrow> bool" where
  "from_start g start p = (p \<noteq> [] \<and> hd p = start \<and> valid_path g p)"

definition reachable :: "graph \<Rightarrow> string \<Rightarrow> string \<Rightarrow> bool" where
  "reachable g start node = (\<exists>p. from_start g start p \<and> last p = node)"

lemma edge_weight_Some: "get_distance g a b = Some d \<Longrightarrow> edge_weight g a b = d"
  by (simp add: edge_weight_def)

lemma path_distance_loop_eq:
  "path_distance_loop g p t =
     (if valid_path g p then Finite (t + walk_cost (edge_weight g) p) else Infinity)"
  by (induction g p t rule: path_distance_loop.induct)
     (auto simp: edge_weight_Some split: option.splits)

lemma get_path_distance_eq:
  "get_path_distance g p =
     (if valid_path g p then Finite (walk_cost (edge_weight g) p) else Infinity)"
proof (cases "length p < 2")
  case True
  then have "p = [] \<or> (\<exists>a. p = [a])"
    by (cases p; cases "tl p") auto
  then show ?thesis
    by (auto simp: get_path_distance_def)
next
  case False
  then show ?thesis
    by (simp add: get_path_distance_def path_distance_loop_eq)
qed

lemma valid_path_snoc:
  "p \<noteq> [] \<Longrightarrow> valid_path g (p @ [u]) = (valid_path g p \<and> get_distance g (last p) u \<noteq> None)"
  by (induction g p rule: valid_path.induct) auto

lemma valid_path_prefix: "valid_path g (p @ q) \<Longrightarrow> valid_path g p"
  by (induction g p rule: valid_path.induct) auto

lemma walk_cost_snoc:
  "p \<noteq> [] \<Longrightarrow> walk_cost st (p @ [u]) = walk_cost st p + st (last p) u"
  by (induction st p rule: walk_cost.induct) auto

lemma walk_cost_prefix:
  assumes "\<And>a b. 0 \<le> st a b"
  shows "walk_cost st p \<le> walk_cost st (p @ q)"
proof (induction q rule: rev_induct)
  case Nil
  show ?case by simp
next
  case (snoc u q)
  show ?case
  proof (cases "p @ q = []")
    case True
    then show ?thesis by simp
  next
    case False
    have "walk_cost st (p @ q @ [u]) = walk_cost st (p @ q) + st (last (p @ q)) u"
      using walk_cost_snoc [OF False, of st u] by simp
    with snoc assms [of "last (p @ q)" u] show ?thesis by simp
  qed
qed

lemma from_start_snoc:
  "from_start g start (p @ [u]) \<Longrightarrow> p \<noteq> [] \<Longrightarrow>
     from_start g start p \<and> get_distance g (last p) u \<noteq> None"
  by (auto simp: from_start_def valid_path_snoc)

lemma from_start_extend:
  "from_start g start p \<Longrightarrow> get_distance g (last p) u \<noteq> None \<Longrightarrow> from_start g start (p @ [u])"
  by (auto simp: from_start_def valid_path_snoc)

lemma from_start_prefix:
  "from_start g start (p @ q) \<Longrightarrow> p \<noteq> [] \<Longrightarrow> from_start g start p"
  using valid_path_prefix [of g p q] by (auto simp: from_start_def)

definition covered ::
  "graph \<Rightarrow> (string \<Rightarrow> string \<Rightarrow> int) \<Rightarrow> string \<Rightarrow> (string \<times> int) set \<Rightarrow> string set \<Rightarrow> bool" where
  "covered g st start F V =
     (\<forall>p u. from_start g start (p @ [u]) \<and> u \<notin> V \<and> (p \<noteq> [] \<longrightarrow> last p \<in> V) \<longrightarrow>
        (\<exists>c. (u, c) \<in> F \<and> c \<le> walk_cost st (p @ [u])))"

lemma covered_crossing:
  assumes cov: "covered g st start F V"
    and p: "from_start g start p" and out: "last p \<notin> V"
  shows "\<exists>p1 u p2 c. p = p1 @ u # p2 \<and> u \<notin> V \<and> (u, c) \<in> F \<and> c \<le> walk_cost st (p1 @ [u])"
proof -
  from p have "p \<noteq> []" by (simp add: from_start_def)
  with out have "\<exists>x\<in>set p. x \<notin> V"
    using last_in_set by blast
  then obtain p1 u p2 where split: "p = p1 @ u # p2" "u \<notin> V" "\<forall>y\<in>set p1. \<not> y \<notin> V"
    using split_list_first_prop [of p "\<lambda>x. x \<notin> V"] by blast
  have "from_start g start (p1 @ [u])"
    using from_start_prefix [of g start "p1 @ [u]" p2] p split(1) by simp
  moreover have "p1 \<noteq> [] \<longrightarrow> last p1 \<in> V"
    using split(3) last_in_set by blast
  ultimately obtain c where "(u, c) \<in> F" "c \<le> walk_cost st (p1 @ [u])"
    using cov split(2) unfolding covered_def by blast
  with split show ?thesis by blast
qed

lemma covered_step:
  assumes cov: "covered g st start F V"
    and best: "\<And>p. from_start g start p \<Longrightarrow> last p = n \<Longrightarrow> c \<le> walk_cost st p"
    and kept: "\<And>u d. (u, d) \<in> F \<Longrightarrow> u \<notin> insert n V \<Longrightarrow> (u, d) \<in> F'"
    and pushed: "\<And>u. get_distance g n u \<noteq> None \<Longrightarrow> u \<notin> insert n V \<Longrightarrow>
                   \<exists>d. (u, d) \<in> F' \<and> d \<le> c + st n u"
  shows "covered g st start F' (insert n V)"
  unfolding covered_def
proof (intro allI impI, elim conjE)
  fix p u
  assume fs: "from_start g start (p @ [u])" and u: "u \<notin> insert n V"
    and lp: "p \<noteq> [] \<longrightarrow> last p \<in> insert n V"
  show "\<exists>d. (u, d) \<in> F' \<and> d \<le> walk_cost st (p @ [u])"
  proof (cases "p \<noteq> [] \<and> last p = n")
    case True
    then have "from_start g start p" "get_distance g n u \<noteq> None"
      using from_start_snoc [OF fs] by auto
    then obtain d where d: "(u, d) \<in> F'" "d \<le> c + st n u"
      using pushed u by blast
    have "c \<le> walk_cost st p"
      using best \<open>from_start g start p\<close> True by blast
    moreover have "walk_cost st (p @ [u]) = walk_cost st p + st n u"
      using walk_cost_snoc True by auto
    ultimately show ?thesis using d by auto
  next
    case False
    with lp have "p \<noteq> [] \<longrightarrow> last p \<in> V" by auto
    then obtain d where "(u, d) \<in> F" "d \<le> walk_cost st (p @ [u])"
      using cov fs u unfolding covered_def by blast
    with kept u show ?thesis by blast
  qed
qed

lemma covered_shrink:
  assumes cov: "covered g st start F V"
    and kept: "\<And>u d. (u, d) \<in> F \<Longrightarrow> u \<notin> V \<Longrightarrow> (u, d) \<in> F'"
  shows "covered g st start F' V"
  using assms unfolding covered_def by blast

lemma covered_init: "covered g st start {(start, 0)} {}"
  unfolding covered_def
proof (intro allI impI, elim conjE)
  fix p u
  assume fs: "from_start g start (p @ [u])" and "p \<noteq> [] \<longrightarrow> last p \<in> {}"
  then have "p = []" by auto
  with fs show "\<exists>c. (u, c) \<in> {(start, 0)} \<and> c \<le> walk_cost st (p @ [u])"
    by (simp add: from_start_def)
qed

lemma covered_empty_closed:
  assumes cov: "covered g st start {} V" and r: "reachable g start node"
  shows "node \<in> V"
proof (rule ccontr)
  assume "node \<notin> V"
  with r obtain p where "from_start g start p" "last p \<notin> V"
    unfolding reachable_def by blast
  from covered_crossing [OF cov this] show False by blast
qed

section \<open>Invariant rules for the four loops\<close>

text \<open>
  One rule per loop: an invariant that holds at the start, survives the pop of a visited
  node and the expansion of a new one, and gives the wanted property at both exits (the
  frontier is empty, the goal is popped), gives that property of the result.
\<close>

lemma bfs_loop_rule:
  assumes "I queue visited eo ne"
    and skip: "\<And>n p c q V eo ne. I ((n, p, c) # q) V eo ne \<Longrightarrow> n \<in> V \<Longrightarrow> I q V eo ne"
    and expand: "\<And>n p c q V eo ne. I ((n, p, c) # q) V eo ne \<Longrightarrow> n \<notin> V \<Longrightarrow> n \<noteq> goal \<Longrightarrow>
       I (q @ map (\<lambda>(neighbor, edge_cost). (neighbor, p @ [neighbor], c + edge_cost))
                (filter (\<lambda>(neighbor, edge_cost). neighbor \<notin> insert n V) (get_neighbors g n)))
         (insert n V) (eo @ [n]) (ne @ [n])"
    and fail: "\<And>V eo ne. I [] V eo ne \<Longrightarrow> Q (failed ''BFS'' ne eo)"
    and hit: "\<And>p c q V eo ne. I ((goal, p, c) # q) V eo ne \<Longrightarrow> goal \<notin> V \<Longrightarrow>
       Q (found ''BFS'' p (get_path_distance g p) (ne @ [goal]) (eo @ [goal]))"
  shows "Q (bfs_loop g goal queue visited eo ne)"
  using assms(1)
proof (induction g' \<equiv> g goal' \<equiv> goal queue visited eo ne rule: bfs_loop.induct)
  case (1 visited eo ne)
  then show ?case using fail by simp
next
  case (2 current_node p c queue visited eo ne)
  show ?case
  proof (cases "current_node \<in> visited")
    case True
    then show ?thesis using 2 skip by simp
  next
    case False
    show ?thesis
    proof (cases "current_node = goal")
      case True
      then show ?thesis using 2(3) False hit by simp
    next
      case ng: False
      show ?thesis
        using 2(2) [OF False ng expand [OF 2(3) False ng]] False ng by simp
    qed
  qed
qed

declare dfs_loop.simps [simp del] ucs_loop.simps [simp del] a_star_loop.simps [simp del]

lemma dfs_loop_rule:
  assumes "I stack visited eo ne"
    and skip: "\<And>n p c s V eo ne. I (s @ [(n, p, c)]) V eo ne \<Longrightarrow> n \<in> V \<Longrightarrow> I s V eo ne"
    and expand: "\<And>n p c s V eo ne. I (s @ [(n, p, c)]) V eo ne \<Longrightarrow> n \<notin> V \<Longrightarrow> n \<noteq> goal \<Longrightarrow>
       I (s @ map (\<lambda>(neighbor, edge_cost). (neighbor, p @ [neighbor], c + edge_cost))
                (filter (\<lambda>(neighbor, edge_cost). neighbor \<notin> insert n V)
                   (rev (get_neighbors g n))))
         (insert n V) (eo @ [n]) (ne @ [n])"
    and fail: "\<And>V eo ne. I [] V eo ne \<Longrightarrow> Q (failed ''DFS'' ne eo)"
    and hit: "\<And>p c s V eo ne. I (s @ [(goal, p, c)]) V eo ne \<Longrightarrow> goal \<notin> V \<Longrightarrow>
       Q (found ''DFS'' p (get_path_distance g p) (ne @ [goal]) (eo @ [goal]))"
  shows "Q (dfs_loop g goal stack visited eo ne)"
  using assms(1)
proof (induction g' \<equiv> g goal' \<equiv> goal stack visited eo ne rule: dfs_loop.induct)
  case (1 stack visited eo ne)
  show ?case
  proof (cases "stack = []")
    case True
    then show ?thesis using 1(3) fail by (subst dfs_loop.simps) simp
  next
    case False
    obtain n p c where top: "last stack = (n, p, c)"
      by (cases "last stack") auto
    with False have stack: "stack = butlast stack @ [(n, p, c)]"
      by (metis append_butlast_last_id)
    have inv: "I (butlast stack @ [(n, p, c)]) visited eo ne"
      using 1(3) stack by simp
    show ?thesis
    proof (cases "n \<in> visited")
      case True
      have "Q (dfs_loop g goal (butlast stack) visited eo ne)"
        using 1(1) [OF False top [symmetric] refl True skip [OF inv True]] .
      then show ?thesis
        using False top True by (subst dfs_loop.simps) simp
    next
      case nv: False
      show ?thesis
      proof (cases "n = goal")
        case True
        then show ?thesis
          using hit [of "butlast stack" p c visited eo ne] inv nv False top
          by (subst dfs_loop.simps) simp
      next
        case ng: False
        show ?thesis
          using 1(2) [OF False top [symmetric] refl nv ng expand [OF inv nv ng]] False top nv ng
          by (subst dfs_loop.simps) simp
      qed
    qed
  qed
qed

lemma heappop_eq:
  assumes "heap \<noteq> []" "heappop heap = (m, rest)"
  shows "m \<in> set heap" "\<forall>e\<in>set heap. m \<le> e" "set heap = insert m (set rest)"
    "set rest \<subseteq> set heap"
proof -
  have m: "m = smallest heap" and rest: "rest = remove1 m heap"
    using assms(2) by (auto simp: heappop_def Let_def)
  show in_heap: "m \<in> set heap"
    using smallest_in [OF assms(1)] m by simp
  obtain x xs where heap: "heap = x # xs"
    using assms(1) by (cases heap) auto
  have "\<forall>e\<in>set (x # xs). fold min xs x \<le> e"
  proof (induction xs arbitrary: x)
    case Nil
    show ?case by simp
  next
    case (Cons y ys)
    have "\<forall>e\<in>set (min y x # ys). fold min ys (min y x) \<le> e"
      using Cons [of "min y x"] .
    then show ?case by (auto simp: min_le_iff_disj)
  qed
  then show "\<forall>e\<in>set heap. m \<le> e"
    using heap m by simp
  have "insert m (set (remove1 m heap)) = set heap"
    using in_heap by (induction heap) auto
  then show "set heap = insert m (set rest)"
    using rest by simp
  then show "set rest \<subseteq> set heap" by auto
qed

lemma foldl_heappush: "foldl heappush heap items = heap @ items"
  by (induction items arbitrary: heap) (simp_all add: heappush_def)

lemma ucs_loop_rule:
  assumes "I pq visited eo ne"
    and skip: "\<And>c n p rest pq V eo ne. I pq V eo ne \<Longrightarrow> pq \<noteq> [] \<Longrightarrow>
       heappop pq = ((c, n, p), rest) \<Longrightarrow> n \<in> V \<Longrightarrow> I rest V eo ne"
    and expand: "\<And>c n p rest pq V eo ne. I pq V eo ne \<Longrightarrow> pq \<noteq> [] \<Longrightarrow>
       heappop pq = ((c, n, p), rest) \<Longrightarrow> n \<notin> V \<Longrightarrow> n \<noteq> goal \<Longrightarrow>
       I (foldl heappush rest
            (map (\<lambda>(neighbor, edge_cost). (c + edge_cost, neighbor, p @ [neighbor]))
               (filter (\<lambda>(neighbor, edge_cost). neighbor \<notin> insert n V) (get_neighbors g n))))
         (insert n V) (eo @ [n]) (ne @ [n])"
    and fail: "\<And>V eo ne. I [] V eo ne \<Longrightarrow> Q (failed ''UCS'' ne eo)"
    and hit: "\<And>c p rest pq V eo ne. I pq V eo ne \<Longrightarrow> pq \<noteq> [] \<Longrightarrow>
       heappop pq = ((c, goal, p), rest) \<Longrightarrow> goal \<notin> V \<Longrightarrow>
       Q (found ''UCS'' p (Finite c) (ne @ [goal]) (eo @ [goal]))"
  shows "Q (ucs_loop g goal pq visited eo ne)"
  using assms(1)
proof (induction g' \<equiv> g goal' \<equiv> goal pq visited eo ne rule: ucs_loop.induct)
  case (1 pq visited eo ne)
  show ?case
  proof (cases "pq = []")
    case True
    then show ?thesis using 1(3) fail by (subst ucs_loop.simps) simp
  next
    case False
    obtain c n p rest where pop: "heappop pq = ((c, n, p), rest)"
      by (metis prod.exhaust)
    show ?thesis
    proof (cases "n \<in> visited")
      case True
      have "Q (ucs_loop g goal rest visited eo ne)"
        using 1(1) [OF False pop [symmetric] refl refl True skip [OF 1(3) False pop True]] .
      then show ?thesis
        using False pop True by (subst ucs_loop.simps) simp
    next
      case nv: False
      show ?thesis
      proof (cases "n = goal")
        case True
        then show ?thesis
          using hit [of pq visited eo ne c p rest] 1(3) nv False pop
          by (subst ucs_loop.simps) simp
      next
        case ng: False
        show ?thesis
          using 1(2) [OF False pop [symmetric] refl refl nv ng expand [OF 1(3) False pop nv ng]]
            False pop nv ng
          by (subst ucs_loop.simps) simp
      qed
    qed
  qed
qed

lemma a_star_loop_rule:
  assumes "I pq visited eo ne gs"
    and skip: "\<And>f c n p rest pq V eo ne gs. I pq V eo ne gs \<Longrightarrow> pq \<noteq> [] \<Longrightarrow>
       heappop pq = ((f, c, n, p), rest) \<Longrightarrow> n \<in> V \<Longrightarrow> I rest V eo ne gs"
    and expand: "\<And>f c n p rest pq V eo ne gs pq' gs'. I pq V eo ne gs \<Longrightarrow> pq \<noteq> [] \<Longrightarrow>
       heappop pq = ((f, c, n, p), rest) \<Longrightarrow> n \<notin> V \<Longrightarrow> n \<noteq> goal \<Longrightarrow>
       fold (relax g goal (insert n V) c p) (get_neighbors g n) (rest, gs) = (pq', gs') \<Longrightarrow>
       I pq' (insert n V) (eo @ [n]) (ne @ [n]) gs'"
    and fail: "\<And>V eo ne gs. I [] V eo ne gs \<Longrightarrow> Q (failed ''A*'' ne eo)"
    and hit: "\<And>f c p rest pq V eo ne gs. I pq V eo ne gs \<Longrightarrow> pq \<noteq> [] \<Longrightarrow>
       heappop pq = ((f, c, goal, p), rest) \<Longrightarrow> goal \<notin> V \<Longrightarrow>
       Q (found ''A*'' p (Finite c) (ne @ [goal]) (eo @ [goal]))"
  shows "Q (a_star_loop g goal pq visited eo ne gs)"
  using assms(1)
proof (induction g' \<equiv> g goal' \<equiv> goal pq visited eo ne gs rule: a_star_loop.induct)
  case (1 pq visited eo ne gs)
  show ?case
  proof (cases "pq = []")
    case True
    then show ?thesis using 1(3) fail by (subst a_star_loop.simps) simp
  next
    case False
    obtain f c n p rest where pop: "heappop pq = ((f, c, n, p), rest)"
      by (metis prod.exhaust)
    show ?thesis
    proof (cases "n \<in> visited")
      case True
      have "Q (a_star_loop g goal rest visited eo ne gs)"
        using 1(1) [OF False pop [symmetric] refl refl refl True skip [OF 1(3) False pop True]] .
      then show ?thesis
        using False pop True by (subst a_star_loop.simps) simp
    next
      case nv: False
      show ?thesis
      proof (cases "n = goal")
        case True
        then show ?thesis
          using hit [of pq visited eo ne gs f c p rest] 1(3) nv False pop
          by (subst a_star_loop.simps) simp
      next
        case ng: False
        obtain pq' gs' where fd:
          "fold (relax g goal (insert n visited) c p) (get_neighbors g n) (rest, gs) = (pq', gs')"
          by (metis prod.exhaust)
        show ?thesis
          using 1(2) [OF False pop [symmetric] refl refl refl nv ng fd [symmetric]
              expand [OF 1(3) False pop nv ng fd]]
            False pop nv ng fd
          by (subst a_star_loop.simps) simp
      qed
    qed
  qed
qed

declare bfs_loop.simps [simp del]

subsection \<open>The exploration trace\<close>

definition explored_once :: "SearchResult \<Rightarrow> bool" where
  "explored_once r =
     (distinct (exploration_order r) \<and> nodes_explored r = exploration_order r)"

definition trace_inv :: "string set \<Rightarrow> string list \<Rightarrow> string list \<Rightarrow> bool" where
  "trace_inv V eo ne = (distinct eo \<and> ne = eo \<and> set eo \<subseteq> V)"

lemma trace_inv_visit: "trace_inv V eo ne \<Longrightarrow> n \<notin> V \<Longrightarrow> trace_inv (insert n V) (eo @ [n]) (ne @ [n])"
  by (auto simp: trace_inv_def)

lemma trace_inv_failed: "trace_inv V eo ne \<Longrightarrow> explored_once (failed name ne eo)"
  by (simp add: trace_inv_def explored_once_def failed_def)

lemma trace_inv_found:
  "trace_inv V eo ne \<Longrightarrow> n \<notin> V \<Longrightarrow> explored_once (found name p c (ne @ [n]) (eo @ [n]))"
  by (auto simp: trace_inv_def explored_once_def found_def)

lemma bfs_loop_once: "trace_inv V eo ne \<Longrightarrow> explored_once (bfs_loop g goal q V eo ne)"
  by (rule bfs_loop_rule [where I = "\<lambda>q. trace_inv"])
     (simp_all add: trace_inv_visit trace_inv_failed trace_inv_found)

lemma dfs_loop_once: "trace_inv V eo ne \<Longrightarrow> explored_once (dfs_loop g goal q V eo ne)"
  by (rule dfs_loop_rule [where I = "\<lambda>q. trace_inv"])
     (simp_all add: trace_inv_visit trace_inv_failed trace_inv_found)

lemma ucs_loop_once: "trace_inv V eo ne \<Longrightarrow> explored_once (ucs_loop g goal q V eo ne)"
  by (rule ucs_loop_rule [where I = "\<lambda>q. trace_inv"])
     (simp_all add: trace_inv_visit trace_inv_failed trace_inv_found)

lemma a_star_loop_once: "trace_inv V eo ne \<Longrightarrow> explored_once (a_star_loop g goal q V eo ne gs)"
  by (rule a_star_loop_rule [where I = "\<lambda>q V eo ne gs. trace_inv V eo ne"])
     (simp_all add: trace_inv_visit trace_inv_failed trace_inv_found)

lemma trace_inv_init: "trace_inv {} [] []"
  by (simp add: trace_inv_def)

lemma explored_once_early:
  "explored_once (failed name [] [])" "explored_once (found name p c [a] [a])"
  by (simp_all add: explored_once_def failed_def found_def)

section \<open>Claims\<close>

subsection \<open>Start and goal are the same node\<close>

text \<open>
  C6. For a valid node \<open>a\<close>, each of the four strategies called with start = goal = \<open>a\<close>
  returns at once a successful result with path \<open>[a]\<close>, cost 0 and the one-node trace
  \<open>[a]\<close>; the four results differ in the strategy's name only.
\<close>

theorem same_node_search:
  assumes "is_valid_node (graph self) a" and "(name, search) \<in> set algorithms"
  shows "search self a a = found name [a] (Finite 0) [a] [a]"
  using assms
  by (auto simp: algorithms_def breadth_first_search_def depth_first_search_def
      uniform_cost_search_def a_star_search_def)

theorem same_node_search_witness:
  "is_valid_node (graph scenario) ''A'' \<and> (''A*'', a_star_search) \<in> set algorithms \<and>
   a_star_search scenario ''A'' ''A'' =
     \<lparr>path = [''A''], cost = Finite 0, nodes_explored = [''A''],
      exploration_order = [''A''], algorithm = ''A*'', success = True\<rparr>"
proof -
  have valid: "is_valid_node (graph scenario) ''A''"
    by (simp add: scenario_def scenario_graph_def is_valid_node_def)
  have listed: "(''A*'', a_star_search) \<in> set algorithms"
    by (simp add: algorithms_def)
  show ?thesis
    using valid listed same_node_search [OF valid listed] by (simp add: found_def)
qed

subsection \<open>A start or goal that is not a node\<close>

text \<open>
  C3, as stated, asks for an \<^verbatim>\<open>InvalidNodeError\<close>. The source has no such error: the
  guard at the head of each strategy returns a \<^verbatim>\<open>SearchResult\<close>. Here the start
  \<open>''X''\<close> is not a node of the scenario graph, and breadth-first search returns a
  result value with \<^verbatim>\<open>success=False\<close>.
\<close>

theorem invalid_node_returns_result:
  "\<not> is_valid_node (graph scenario) ''X'' \<and>
   breadth_first_search scenario ''X'' ''A'' =
     \<lparr>path = [], cost = Finite 0, nodes_explored = [], exploration_order = [],
      algorithm = ''BFS'', success = False\<rparr>"
  by (simp add: breadth_first_search_def scenario_def scenario_graph_def is_valid_node_def
      failed_def)

text \<open>
  C3, amended. If start or goal is not a node of the graph, each of the four strategies
  returns a result with \<^verbatim>\<open>success=False\<close>, an empty path, cost 0 and an empty exploration
  trace: the query is rejected before any node is explored.
\<close>

theorem invalid_node_rejected:
  assumes "\<not> is_valid_node (graph self) start \<or> \<not> is_valid_node (graph self) goal"
    and "(name, search) \<in> set algorithms"
  shows "search self start goal = failed name [] []"
  using assms
  by (auto simp: algorithms_def breadth_first_search_def depth_first_search_def
      uniform_cost_search_def a_star_search_def)

theorem invalid_node_rejected_witness:
  "\<not> is_valid_node (graph scenario) ''X'' \<and>
   (''UCS'', uniform_cost_search) \<in> set algorithms \<and>
   uniform_cost_search scenario ''A'' ''X'' =
     \<lparr>path = [], cost = Finite 0, nodes_explored = [], exploration_order = [],
      algorithm = ''UCS'', success = False\<rparr>"
proof -
  have invalid: "\<not> is_valid_node (graph scenario) ''X''"
    by (simp add: scenario_def scenario_graph_def is_valid_node_def)
  then have either:
    "\<not> is_valid_node (graph scenario) ''A'' \<or> \<not> is_valid_node (graph scenario) ''X''"
    by simp
  have listed: "(''UCS'', uniform_cost_search) \<in> set algorithms"
    by (simp add: algorithms_def)
  show ?thesis
    using invalid listed invalid_node_rejected [OF either listed] by (simp add: failed_def)
qed

subsection \<open>Every node is explored at most once\<close>

text \<open>
  C9. In the result of each of the four strategies, successful or not, the exploration
  order has no duplicates and \<^verbatim>\<open>nodes_explored\<close> is the same list as
  \<^verbatim>\<open>exploration_order\<close> (\<open>explored_once\<close> says both). A node is appended to the two
  lists only when it is popped and not yet in \<^verbatim>\<open>visited\<close>.
\<close>

theorem explored_at_most_once:
  "explored_once (breadth_first_search self start goal) \<and>
   explored_once (depth_first_search self start goal) \<and>
   explored_once (uniform_cost_search self start goal) \<and>
   explored_once (a_star_search self start goal)"
  by (simp add: breadth_first_search_def depth_first_search_def uniform_cost_search_def
      a_star_search_def explored_once_early bfs_loop_once dfs_loop_once ucs_loop_once
      a_star_loop_once trace_inv_init)

end
